theory Spec2Isabelle
  imports Complex_Main "HOL-Library.Word" "HOL-Library.Signed_Division"
begin

section \<open>Go values shared by the packages\<close>

text \<open>
  A Go panic is a value of the model, carrying the runtime's message. A conversion whose
  result the Go specification leaves to the implementation is a value of its own.
\<close>

datatype fault = Panic string | ImplementationDefined

type_synonym int64 = "64 word"

text \<open>
  \<^verbatim>\<open>time.Duration\<close> is an \<^verbatim>\<open>int64\<close> count of nanoseconds. Durations are kept as
  integers; where the source adds them up the wrap-around is written out (\<open>wrap64\<close>).
  \<^verbatim>\<open>time.Time\<close> is the number of nanoseconds since the zero instant, so that
  \<^verbatim>\<open>time.Time{}\<close> is 0 and \<^verbatim>\<open>IsZero\<close> compares with 0.
\<close>

type_synonym time_Duration = int
type_synonym time_Time = int

definition wrap64 :: "int \<Rightarrow> int" where
  "wrap64 i = sint (word_of_int i :: int64)"

definition maxDuration :: time_Duration where
  "maxDuration = 2 ^ 63 - 1"

definition minDuration :: time_Duration where
  "minDuration = - (2 ^ 63)"

definition IsZero :: "time_Time \<Rightarrow> bool" where
  "IsZero t = (t = 0)"

text \<open>\<^verbatim>\<open>t.Sub(u)\<close>: the difference, saturating at the largest and smallest duration.\<close>

definition Sub :: "time_Time \<Rightarrow> time_Time \<Rightarrow> time_Duration" where
  "Sub t u =
     (let d = t - u
      in if maxDuration < d then maxDuration else if d < minDuration then minDuration else d)"

section \<open>float64 arithmetic\<close>

text \<open>
  A \<^verbatim>\<open>float64\<close> is modelled by the rational it denotes. Every operation of the source
  (conversion from an integer, \<^verbatim>\<open>/\<close>, \<^verbatim>\<open>*\<close>, \<^verbatim>\<open>+\<close>) is the exact operation followed by
  \<open>f64\<close>, IEEE 754 rounding to the nearest value with a 53-bit significand, ties to
  even. The values the program computes are quotients, products and sums of 64-bit
  integers, which lie in the normal range of binary64, so neither overflow to infinity
  nor gradual underflow is modelled.

  \<open>ilog2 n\<close> is the position of the highest set bit of \<open>n\<close>; \<open>expo x\<close> is the binary
  exponent of a positive rational: \<open>2 powi expo x \<le> x < 2 powi (expo x + 1)\<close>.
\<close>

fun ilog2 :: "nat \<Rightarrow> nat" where
  "ilog2 n = (if n < 2 then 0 else Suc (ilog2 (n div 2)))"

definition expo :: "rat \<Rightarrow> int" where
  "expo x =
     (if 1 \<le> x then int (ilog2 (nat \<lfloor>x\<rfloor>))
      else - int (Suc (ilog2 (nat (\<lceil>1 / x\<rceil> - 1)))))"

definition rne :: "rat \<Rightarrow> int" where
  "rne q =
     (let f = \<lfloor>q\<rfloor>; r = q - of_int f
      in if r < 1 / 2 then f
         else if 1 / 2 < r then f + 1
         else if even f then f else f + 1)"

definition f64 :: "rat \<Rightarrow> rat" where
  "f64 x =
     (if x = 0 then 0
      else let a = \<bar>x\<bar>; u = 2 powi (expo a - 52)
           in sgn x * (of_int (rne (a / u)) * u))"

definition f64_of_int :: "int \<Rightarrow> rat" where
  "f64_of_int i = f64 (of_int i)"

definition f64_div :: "rat \<Rightarrow> rat \<Rightarrow> rat" where
  "f64_div a b = f64 (a / b)"

definition f64_mul :: "rat \<Rightarrow> rat \<Rightarrow> rat" where
  "f64_mul a b = f64 (a * b)"

definition f64_add :: "rat \<Rightarrow> rat \<Rightarrow> rat" where
  "f64_add a b = f64 (a + b)"

text \<open>
  \<^verbatim>\<open>int(x)\<close> on a \<^verbatim>\<open>float64\<close> discards the fraction (truncation towards zero). When the
  result does not fit the 64-bit \<^verbatim>\<open>int\<close>, the Go specification leaves the value to the
  implementation.
\<close>

definition f64_to_int :: "rat \<Rightarrow> fault + int" where
  "f64_to_int x =
     (let t = (if 0 \<le> x then \<lfloor>x\<rfloor> else \<lceil>x\<rceil>)
      in if - (2 ^ 63) \<le> t \<and> t < 2 ^ 63 then Inr t else Inl ImplementationDefined)"

section \<open>Package metrics: the Collector\<close>

record Collector =
  totalRequests :: int64
  successRequests :: int64
  errorRequests :: int64
  rejectedRequests :: int64
  latencies :: "time_Duration list"
  startTime :: time_Time
  endTime :: time_Time
  memoryAllocations :: int64
  memoryBytes :: int64

text \<open>
  Every method that reads the clock (\<^verbatim>\<open>time.Now()\<close>) takes the instant it reads as the
  argument \<open>now\<close>. The mutex makes each method atomic, so a method is a function from
  the state before to the state after.
\<close>

definition NewCollector :: "time_Time \<Rightarrow> Collector" where
  "NewCollector now =
     \<lparr> totalRequests = 0, successRequests = 0, errorRequests = 0, rejectedRequests = 0,
       latencies = [], startTime = now, endTime = 0,
       memoryAllocations = 0, memoryBytes = 0 \<rparr>"

definition RecordRequest :: "Collector \<Rightarrow> time_Duration \<Rightarrow> bool \<Rightarrow> Collector" where
  "RecordRequest c latency success =
     (let c1 = c\<lparr> totalRequests := totalRequests c + 1 \<rparr>;
          c2 = (if success then c1\<lparr> successRequests := successRequests c1 + 1 \<rparr>
                else c1\<lparr> errorRequests := errorRequests c1 + 1 \<rparr>)
      in c2\<lparr> latencies := latencies c2 @ [latency] \<rparr>)"

definition RecordRejection :: "Collector \<Rightarrow> Collector" where
  "RecordRejection c =
     c\<lparr> totalRequests := totalRequests c + 1, rejectedRequests := rejectedRequests c + 1 \<rparr>"

definition RecordMemory :: "Collector \<Rightarrow> int64 \<Rightarrow> int64 \<Rightarrow> Collector" where
  "RecordMemory c allocations bytes =
     c\<lparr> memoryAllocations := memoryAllocations c + allocations,
        memoryBytes := memoryBytes c + bytes \<rparr>"

definition Stop :: "Collector \<Rightarrow> time_Time \<Rightarrow> Collector" where
  "Stop c now = c\<lparr> endTime := now \<rparr>"

definition Reset :: "Collector \<Rightarrow> time_Time \<Rightarrow> Collector" where
  "Reset c now =
     c\<lparr> totalRequests := 0, successRequests := 0, errorRequests := 0, rejectedRequests := 0,
        latencies := [], memoryAllocations := 0, memoryBytes := 0,
        startTime := now, endTime := 0 \<rparr>"

record Stats =
  TotalRequests :: int64
  SuccessRequests :: int64
  ErrorRequests :: int64
  RejectedRequests :: int64
  ErrorRate :: rat
  RejectionRate :: rat
  MinLatency :: rat
  MaxLatency :: rat
  MeanLatency :: rat
  MedianLatency :: rat
  P95Latency :: rat
  P99Latency :: rat
  Duration :: rat
  RequestsPerSec :: rat
  MemoryAllocations :: int64
  MemoryBytes :: int64
  MemoryMB :: rat

text \<open>
  \<^verbatim>\<open>percentile(sorted, p)\<close>. The index is computed in \<^verbatim>\<open>float64\<close> and converted back;
  the source guards the upper end only, so a negative index reaches \<^verbatim>\<open>sorted[rank]\<close>
  and panics there.
\<close>

definition percentile_rank :: "int \<Rightarrow> int \<Rightarrow> fault + int" where
  "percentile_rank n p =
     f64_to_int (f64_mul (f64_div (f64_of_int p) 100) (f64_of_int n))"

definition percentile :: "time_Duration list \<Rightarrow> int \<Rightarrow> fault + time_Duration" where
  "percentile sorted' p =
     (if length sorted' = 0 then Inr 0
      else let n = int (length sorted')
           in case percentile_rank n p of
                Inl e \<Rightarrow> Inl e
              | Inr rank0 \<Rightarrow>
                  let rank = (if n \<le> rank0 then n - 1 else rank0)
                  in if rank < 0 then Inl (Panic ''index out of range'')
                     else Inr (sorted' ! nat rank))"

text \<open>\<^verbatim>\<open>Duration.Seconds()\<close> and the closure \<^verbatim>\<open>toMs\<close> of \<^verbatim>\<open>GetStats\<close>.\<close>

definition Seconds :: "time_Duration \<Rightarrow> rat" where
  "Seconds d =
     f64_add (f64_of_int (d sdiv 1000000000))
             (f64_div (f64_of_int (d smod 1000000000)) 1000000000)"

definition toMs :: "time_Duration \<Rightarrow> rat" where
  "toMs d = f64_div (f64_of_int d) (f64_of_int 1000000)"

text \<open>
  The latency block of \<^verbatim>\<open>GetStats\<close>: it runs on a sorted copy, and only when at least
  one latency was recorded.
\<close>

definition latencyStats :: "time_Duration list \<Rightarrow> Stats \<Rightarrow> fault + Stats" where
  "latencyStats ls stats =
     (if 0 < length ls then
        let latenciesCopy = sort ls;
            stats1 = stats\<lparr> MinLatency := toMs (latenciesCopy ! 0),
                            MaxLatency := toMs (latenciesCopy ! (length latenciesCopy - 1)) \<rparr>;
            total = wrap64 (sum_list latenciesCopy);
            stats2 = stats1\<lparr> MeanLatency := toMs (total sdiv int (length latenciesCopy)) \<rparr>
        in case percentile latenciesCopy 50 of
             Inl e \<Rightarrow> Inl e
           | Inr p50 \<Rightarrow>
               (case percentile latenciesCopy 95 of
                  Inl e \<Rightarrow> Inl e
                | Inr p95 \<Rightarrow>
                    (case percentile latenciesCopy 99 of
                       Inl e \<Rightarrow> Inl e
                     | Inr p99 \<Rightarrow>
                         Inr (stats2\<lparr> MedianLatency := toMs p50,
                                      P95Latency := toMs p95,
                                      P99Latency := toMs p99 \<rparr>)))
      else Inr stats)"

text \<open>
  \<^verbatim>\<open>GetStats\<close> in two steps: \<open>counterStats\<close> is its body up to and including the
  throughput, \<open>latencyStats\<close> the latency block that follows.
\<close>

definition counterStats :: "Collector \<Rightarrow> time_Time \<Rightarrow> Stats" where
  "counterStats c now =
     (let stats0 = \<lparr> TotalRequests = totalRequests c,
                     SuccessRequests = successRequests c,
                     ErrorRequests = errorRequests c,
                     RejectedRequests = rejectedRequests c,
                     ErrorRate = 0, RejectionRate = 0,
                     MinLatency = 0, MaxLatency = 0, MeanLatency = 0,
                     MedianLatency = 0, P95Latency = 0, P99Latency = 0,
                     Duration = 0, RequestsPerSec = 0,
                     MemoryAllocations = memoryAllocations c,
                     MemoryBytes = memoryBytes c,
                     MemoryMB = 0 \<rparr>;
          total = f64_of_int (sint (totalRequests c));
          stats1 = (if 0 <s totalRequests c
                    then stats0\<lparr> ErrorRate :=
                                    f64_mul (f64_div (f64_of_int (sint (errorRequests c))) total) 100,
                                  RejectionRate :=
                                    f64_mul (f64_div (f64_of_int (sint (rejectedRequests c))) total) 100 \<rparr>
                    else stats0);
          stats2 = (if 0 <s memoryBytes c
                    then stats1\<lparr> MemoryMB :=
                                    f64_div (f64_div (f64_of_int (sint (memoryBytes c))) 1024) 1024 \<rparr>
                    else stats1);
          endTime' = (if IsZero (endTime c) then now else endTime c);
          duration = Sub endTime' (startTime c);
          stats3 = stats2\<lparr> Duration := Seconds duration \<rparr>;
          stats4 = (if 0 < Duration stats3
                    then stats3\<lparr> RequestsPerSec := f64_div total (Duration stats3) \<rparr>
                    else stats3)
      in stats4)"

definition GetStats :: "Collector \<Rightarrow> time_Time \<Rightarrow> fault + Stats" where
  "GetStats c now = latencyStats (latencies c) (counterStats c now)"

text \<open>
  The index \<^verbatim>\<open>percentile\<close> reads for a percentile between 0 and 100, written without
  the conversions that are exact there: the floor of the twice rounded product.
\<close>

definition float_rank :: "int \<Rightarrow> int \<Rightarrow> int" where
  "float_rank n p = \<lfloor>f64 (f64 (of_int p / 100) * of_int n)\<rfloor>"

text \<open>
  The index of the nearest-rank rule in exact arithmetic, \<open>floor (p / 100 * n)\<close>,
  for comparison with the one the source computes.
\<close>

definition exact_rank :: "int \<Rightarrow> int \<Rightarrow> int" where
  "exact_rank n p = \<lfloor>(of_int p :: rat) / 100 * of_int n\<rfloor>"

text \<open>
  A history of a collector: the constructor at instant \<open>t0\<close>, then any sequence of the
  mutating methods.
\<close>

datatype collector_op =
    OpRecordRequest time_Duration bool
  | OpRecordRejection
  | OpRecordMemory int64 int64
  | OpStop time_Time
  | OpReset time_Time

fun apply_op :: "Collector \<Rightarrow> collector_op \<Rightarrow> Collector" where
  "apply_op c (OpRecordRequest latency success) = RecordRequest c latency success"
| "apply_op c OpRecordRejection = RecordRejection c"
| "apply_op c (OpRecordMemory allocations bytes) = RecordMemory c allocations bytes"
| "apply_op c (OpStop now) = Stop c now"
| "apply_op c (OpReset now) = Reset c now"

definition run_ops :: "time_Time \<Rightarrow> collector_op list \<Rightarrow> Collector" where
  "run_ops t0 ops = foldl apply_op (NewCollector t0) ops"

definition counters_consistent :: "Collector \<Rightarrow> bool" where
  "counters_consistent c =
     (totalRequests c = successRequests c + errorRequests c + rejectedRequests c)"

section \<open>Properties of the float64 model\<close>

declare ilog2.simps [simp del]

lemma ilog2_bounds: "0 < n \<Longrightarrow> 2 ^ ilog2 n \<le> n \<and> n < 2 ^ Suc (ilog2 n)"
proof (induction n rule: ilog2.induct)
  case (1 n)
  show ?case
  proof (cases "n < 2")
    case True
    with "1.prems" have "n = 1" by simp
    then show ?thesis by (simp add: ilog2.simps)
  next
    case False
    then have pos: "0 < n div 2" by simp
    from "1.IH" [OF False pos]
    have lo: "2 ^ ilog2 (n div 2) \<le> n div 2" and hi: "n div 2 < 2 ^ Suc (ilog2 (n div 2))"
      by simp_all
    have eq: "ilog2 n = Suc (ilog2 (n div 2))"
      using False by (subst ilog2.simps) simp
    from lo have "2 * 2 ^ ilog2 (n div 2) \<le> n" by linarith
    moreover from hi have "n < 2 * 2 ^ Suc (ilog2 (n div 2))" by linarith
    ultimately show ?thesis by (simp add: eq)
  qed
qed

lemma powi_nat: "(2::rat) powi int k = 2 ^ k"
  by (simp add: power_int_def)

lemma powi_neg: "(2::rat) powi (- int k) = 1 / 2 ^ k"
  by (simp add: power_int_def inverse_eq_divide power_one_over)

lemma pow2_le_of_nat: "2 ^ k \<le> m \<Longrightarrow> (2::rat) ^ k \<le> of_nat m"
proof -
  assume "2 ^ k \<le> m"
  then have "(of_nat (2 ^ k) :: rat) \<le> of_nat m" by (simp only: of_nat_le_iff)
  then show ?thesis by simp
qed

lemma of_nat_Suc_le_pow2: "m < 2 ^ k \<Longrightarrow> (of_nat m :: rat) + 1 \<le> 2 ^ k"
proof -
  assume "m < 2 ^ k"
  then have "Suc m \<le> 2 ^ k" by simp
  then have "(of_nat (Suc m) :: rat) \<le> of_nat (2 ^ k)" by (simp only: of_nat_le_iff)
  then show ?thesis by simp
qed

lemma expo_bounds:
  assumes "0 < x"
  shows "2 powi expo x \<le> x \<and> x < 2 powi (expo x + 1)"
proof (cases "1 \<le> x")
  case True
  define m where "m = nat \<lfloor>x\<rfloor>"
  have fl: "1 \<le> \<lfloor>x\<rfloor>" using True by (simp add: le_floor_iff)
  then have mpos: "0 < m" by (simp add: m_def)
  have e: "expo x = int (ilog2 m)" using True by (simp add: expo_def m_def)
  from ilog2_bounds [OF mpos] have lo: "2 ^ ilog2 m \<le> m" and hi: "m < 2 ^ Suc (ilog2 m)" by simp_all
  have mfl: "(of_nat m :: rat) = of_int \<lfloor>x\<rfloor>" using fl by (simp add: m_def)
  have mx1: "of_nat m \<le> x" unfolding mfl by (rule of_int_floor_le)
  have mx2: "x < of_nat m + 1" unfolding mfl using floor_correct [of x] by simp
  have A: "2 ^ ilog2 m \<le> x" using pow2_le_of_nat [OF lo] mx1 by (rule order_trans)
  have B: "x < 2 ^ Suc (ilog2 m)" using mx2 of_nat_Suc_le_pow2 [OF hi] by (rule less_le_trans)
  have e1: "expo x + 1 = int (Suc (ilog2 m))" using e by simp
  show ?thesis unfolding e1 unfolding e powi_nat using A B by (rule conjI)
next
  case False
  then have x1: "x < 1" by simp
  define y where "y = 1 / x"
  have y1: "1 < y" using assms x1 by (simp add: y_def)
  define m where "m = nat (\<lceil>y\<rceil> - 1)"
  have c2: "2 \<le> \<lceil>y\<rceil>" using y1 by (simp add: le_ceiling_iff)
  then have mpos: "0 < m" by (simp add: m_def)
  have e: "expo x = - int (Suc (ilog2 m))" using False by (simp add: expo_def m_def y_def)
  from ilog2_bounds [OF mpos] have lo: "2 ^ ilog2 m \<le> m" and hi: "m < 2 ^ Suc (ilog2 m)" by simp_all
  have mc: "(of_nat m :: rat) = of_int \<lceil>y\<rceil> - 1" using c2 by (simp add: m_def)
  have my1: "of_nat m < y" unfolding mc by (rule ceiling_correct [THEN conjunct1])
  have my2: "y \<le> of_nat m + 1" unfolding mc by simp
  have ylo: "(2::rat) ^ ilog2 m < y" using pow2_le_of_nat [OF lo] my1 by (rule le_less_trans)
  have yhi: "y \<le> (2::rat) ^ Suc (ilog2 m)" using my2 of_nat_Suc_le_pow2 [OF hi] by (rule order_trans)
  have xy: "x = 1 / y" using assms by (simp add: y_def)
  have ypos: "0 < y" using y1 by simp
  have A: "1 / (2::rat) ^ Suc (ilog2 m) \<le> x"
    unfolding xy using yhi ypos by (simp add: frac_le)
  have "1 / y < 1 / (2::rat) ^ ilog2 m"
    using ylo by (simp add: frac_less2)
  then have B: "x < 1 / (2::rat) ^ ilog2 m" unfolding xy .
  have e1: "expo x + 1 = - int (ilog2 m)" using e by simp
  show ?thesis unfolding e1 unfolding e powi_neg using A B by (rule conjI)
qed

lemma powi_pos: "0 < (2::rat) powi e"
  by (simp add: power_int_def)

lemma powi_mono: "a \<le> b \<Longrightarrow> (2::rat) powi a \<le> 2 powi b"
  by (rule power_int_increasing) simp_all

lemma powi_strict_mono: "a < b \<Longrightarrow> (2::rat) powi a < 2 powi b"
  by (rule power_int_strict_increasing) simp_all

lemma expo_unique:
  assumes "0 < x" "2 powi e \<le> x" "x < 2 powi (e + 1)"
  shows "expo x = e"
proof (rule ccontr)
  assume ne: "expo x \<noteq> e"
  from expo_bounds [OF assms(1)]
  have lo: "2 powi expo x \<le> x" and hi: "x < 2 powi (expo x + 1)" by simp_all
  show False
  proof (cases "expo x < e")
    case True
    then have "(2::rat) powi (expo x + 1) \<le> 2 powi e" by (intro powi_mono) simp
    with hi assms(2) show False by linarith
  next
    case False
    with ne have "e + 1 \<le> expo x" by simp
    then have "(2::rat) powi (e + 1) \<le> 2 powi expo x" by (rule powi_mono)
    with lo assms(3) show False by linarith
  qed
qed

lemma expo_mono:
  assumes "0 < x" "x \<le> y"
  shows "expo x \<le> expo y"
proof (rule ccontr)
  assume "\<not> expo x \<le> expo y"
  then have "expo y + 1 \<le> expo x" by simp
  then have "(2::rat) powi (expo y + 1) \<le> 2 powi expo x" by (rule powi_mono)
  moreover from assms have "0 < y" by simp
  ultimately show False
    using expo_bounds [OF assms(1)] expo_bounds [OF \<open>0 < y\<close>] assms(2) by linarith
qed

lemma rne_bounds: "\<lfloor>q\<rfloor> \<le> rne q \<and> rne q \<le> \<lfloor>q\<rfloor> + 1"
  by (simp add: rne_def Let_def)

lemma rne_of_int: "rne (of_int k) = k"
  by (simp add: rne_def Let_def)

lemma rne_mono:
  assumes "q \<le> q'"
  shows "rne q \<le> rne q'"
proof (cases "\<lfloor>q\<rfloor> = \<lfloor>q'\<rfloor>")
  case True
  have "q - of_int \<lfloor>q\<rfloor> \<le> q' - of_int \<lfloor>q'\<rfloor>" using assms True by simp
  then show ?thesis using True by (auto simp: rne_def Let_def)
next
  case False
  have "\<lfloor>q\<rfloor> \<le> \<lfloor>q'\<rfloor>" using assms by (rule floor_mono)
  with False have "\<lfloor>q\<rfloor> + 1 \<le> \<lfloor>q'\<rfloor>" by simp
  then show ?thesis using rne_bounds [of q] rne_bounds [of q'] by linarith
qed

lemma rne_ge_int: "of_int k \<le> q \<Longrightarrow> k \<le> rne q"
  using rne_mono [of "of_int k" q] by (simp add: rne_of_int)

lemma rne_le_int: "q \<le> of_int k \<Longrightarrow> rne q \<le> k"
  using rne_mono [of q "of_int k"] by (simp add: rne_of_int)

text \<open>The significand of a positive value lies between 2^52 and 2^53.\<close>

lemma f64_pos_eq:
  "0 < x \<Longrightarrow> f64 x = of_int (rne (x / 2 powi (expo x - 52))) * 2 powi (expo x - 52)"
  by (simp add: f64_def Let_def)

lemma powi_split: "(2::rat) powi e = 2 ^ 52 * 2 powi (e - 52)"
proof -
  have "e = 52 + (e - 52)" by simp
  then have "(2::rat) powi e = 2 powi (52 + (e - 52))" by (rule arg_cong)
  also have "\<dots> = 2 powi 52 * 2 powi (e - 52)" by (subst power_int_add) simp_all
  also have "(2::rat) powi 52 = 2 ^ 52" using powi_nat [of 52] by simp
  finally show ?thesis .
qed

lemma powi_split1: "(2::rat) powi (e + 1) = 2 ^ 53 * 2 powi (e - 52)"
proof -
  have "e + 1 = 53 + (e - 52)" by simp
  then have "(2::rat) powi (e + 1) = 2 powi (53 + (e - 52))" by (rule arg_cong)
  also have "\<dots> = 2 powi 53 * 2 powi (e - 52)" by (subst power_int_add) simp_all
  also have "(2::rat) powi 53 = 2 ^ 53" using powi_nat [of 53] by simp
  finally show ?thesis .
qed

lemma f64_range:
  assumes "0 < x"
  shows "2 powi expo x \<le> f64 x \<and> f64 x \<le> 2 powi (expo x + 1)"
proof -
  define u where "u = (2::rat) powi (expo x - 52)"
  have upos: "0 < u" by (simp add: u_def powi_pos)
  from expo_bounds [OF assms]
  have lo: "2 ^ 52 * u \<le> x" and hi: "x < 2 ^ 53 * u"
    unfolding u_def using powi_split [of "expo x"] powi_split1 [of "expo x"] by simp_all
  have "(2::rat) ^ 52 \<le> x / u" using lo upos by (simp add: pos_le_divide_eq)
  then have "of_int (2 ^ 52) \<le> x / u" by simp
  then have m_lo: "2 ^ 52 \<le> rne (x / u)" by (rule rne_ge_int)
  have "x / u \<le> (2::rat) ^ 53" using hi upos by (simp add: pos_divide_le_eq)
  then have "x / u \<le> of_int (2 ^ 53)" by simp
  then have m_hi: "rne (x / u) \<le> 2 ^ 53" by (rule rne_le_int)
  have f: "f64 x = of_int (rne (x / u)) * u" using assms by (simp add: f64_pos_eq u_def)
  have "(2::rat) ^ 52 \<le> of_int (rne (x / u))" using m_lo by (metis of_int_le_iff of_int_numeral of_int_power)
  then have A: "2 ^ 52 * u \<le> f64 x" unfolding f using upos by simp
  have "of_int (rne (x / u)) \<le> (2::rat) ^ 53" using m_hi by (metis of_int_le_iff of_int_numeral of_int_power)
  then have B: "f64 x \<le> 2 ^ 53 * u" unfolding f using upos by simp
  show ?thesis
    using A B unfolding u_def using powi_split [of "expo x"] powi_split1 [of "expo x"] by simp
qed

lemma f64_mono_pos:
  assumes "0 < x" "x \<le> y"
  shows "f64 x \<le> f64 y"
proof -
  have ypos: "0 < y" using assms by simp
  show ?thesis
  proof (cases "expo x = expo y")
    case True
    define u where "u = (2::rat) powi (expo y - 52)"
    have upos: "0 < u" by (simp add: u_def powi_pos)
    have "x / u \<le> y / u" using assms upos by (simp add: divide_right_mono)
    then have "rne (x / u) \<le> rne (y / u)" by (rule rne_mono)
    then have "(of_int (rne (x / u)) :: rat) \<le> of_int (rne (y / u))" by simp
    then have "of_int (rne (x / u)) * u \<le> of_int (rne (y / u)) * u"
      using upos by (simp add: mult_right_mono)
    then show ?thesis
      using assms ypos True by (simp add: f64_pos_eq u_def)
  next
    case False
    with expo_mono [OF assms] have "expo x + 1 \<le> expo y" by simp
    then have "(2::rat) powi (expo x + 1) \<le> 2 powi expo y" by (rule powi_mono)
    then show ?thesis
      using f64_range [OF assms(1)] f64_range [OF ypos] by linarith
  qed
qed

lemma f64_zero: "f64 0 = 0"
  by (simp add: f64_def)

lemma f64_nonneg: "0 \<le> x \<Longrightarrow> 0 \<le> f64 x"
proof (cases "x = 0")
  case True then show ?thesis by (simp add: f64_zero)
next
  case False
  assume "0 \<le> x"
  with False have "0 < x" by simp
  from f64_range [OF this] powi_pos [of "expo x"] show ?thesis by linarith
qed

lemma f64_mono:
  assumes "0 \<le> x" "x \<le> y"
  shows "f64 x \<le> f64 y"
proof (cases "x = 0")
  case True
  then show ?thesis using assms f64_nonneg [of y] by (simp add: f64_zero)
next
  case False
  with assms have "0 < x" by simp
  then show ?thesis using assms(2) by (rule f64_mono_pos)
qed


lemma f64_of_int_exact:
  assumes "0 \<le> k" "k < 2 ^ 53"
  shows "f64 (of_int k) = of_int k"
proof (cases "k = 0")
  case True then show ?thesis by (simp add: f64_zero)
next
  case False
  define x :: rat where "x = of_int k"
  have xpos: "0 < x" using assms False by (simp add: x_def)
  have "1 \<le> k" using assms False by simp
  then have x1: "1 \<le> x" by (simp add: x_def)
  have e0: "0 \<le> expo x" using x1 by (simp add: expo_def)
  have "x < 2 ^ 53" using assms(2) unfolding x_def
    by (metis of_int_less_iff of_int_numeral of_int_power)
  then have "x < 2 powi 53" using powi_nat [of 53] by simp
  have e52: "expo x \<le> 52"
  proof (rule ccontr)
    assume "\<not> expo x \<le> 52"
    then have "53 \<le> expo x" by simp
    then have "(2::rat) powi 53 \<le> 2 powi expo x" by (rule powi_mono)
    with expo_bounds [OF xpos] \<open>x < 2 powi 53\<close> show False by linarith
  qed
  define d where "d = nat (52 - expo x)"
  have ed: "expo x - 52 = - int d" using e52 by (simp add: d_def)
  have u: "(2::rat) powi (expo x - 52) = 1 / 2 ^ d" unfolding ed by (rule powi_neg)
  have "x / (1 / 2 ^ d) = of_int (k * 2 ^ d)" by (simp add: x_def)
  then have r: "rne (x / (1 / 2 ^ d)) = k * 2 ^ d" by (simp only: rne_of_int)
  have "f64 x = of_int (rne (x / (1 / 2 ^ d))) * (1 / 2 ^ d)"
    using xpos by (simp only: f64_pos_eq u)
  also have "\<dots> = of_int (k * 2 ^ d) * (1 / 2 ^ d)" by (simp only: r)
  also have "\<dots> = x" by (simp add: x_def)
  finally show ?thesis by (simp add: x_def)
qed

lemma f64_one: "f64 1 = 1"
  using f64_of_int_exact [of 1] by simp

lemma f64_hundred: "f64 100 = 100"
  using f64_of_int_exact [of 100] by simp

lemma fraction_bounds:
  assumes "0 \<le> p" "p \<le> 100"
  shows "0 \<le> f64 (of_int p / 100) \<and> f64 (of_int p / 100) \<le> 1"
proof -
  have a: "(0::rat) \<le> of_int p / 100" using assms by simp
  have b: "(of_int p :: rat) / 100 \<le> 1" using assms by simp
  from f64_nonneg [OF a] f64_mono [OF a b] show ?thesis by (simp add: f64_one)
qed

lemma float_rank_bounds:
  assumes "0 \<le> p" "p \<le> 100" "0 \<le> n" "n < 2 ^ 53"
  shows "0 \<le> float_rank n p \<and> float_rank n p \<le> n"
proof -
  from fraction_bounds [OF assms(1,2)]
  have c0: "0 \<le> f64 (of_int p / 100)" and c1: "f64 (of_int p / 100) \<le> 1" by simp_all
  have n0: "(0::rat) \<le> of_int n" using assms by simp
  have a: "0 \<le> f64 (of_int p / 100) * of_int n" using c0 n0 by simp
  have b: "f64 (of_int p / 100) * of_int n \<le> of_int n"
    using mult_right_mono [OF c1 n0] by simp
  from f64_mono [OF a b] have "f64 (f64 (of_int p / 100) * of_int n) \<le> of_int n"
    by (simp add: f64_of_int_exact [OF assms(3,4)])
  moreover from f64_nonneg [OF a] have "0 \<le> f64 (f64 (of_int p / 100) * of_int n)" .
  ultimately show ?thesis unfolding float_rank_def by (simp add: floor_le_iff le_floor_iff)
qed

lemma float_rank_mono:
  assumes "0 \<le> p" "p \<le> q" "0 \<le> n"
  shows "float_rank n p \<le> float_rank n q"
proof -
  have a: "(0::rat) \<le> of_int p / 100" using assms by simp
  have b: "(of_int p :: rat) / 100 \<le> of_int q / 100" using assms by simp
  have c: "f64 (of_int p / 100) \<le> f64 (of_int q / 100)" using a b by (rule f64_mono)
  have n0: "(0::rat) \<le> of_int n" using assms by simp
  have d: "0 \<le> f64 (of_int p / 100) * of_int n" using f64_nonneg [OF a] n0 by simp
  have e: "f64 (of_int p / 100) * of_int n \<le> f64 (of_int q / 100) * of_int n"
    using c n0 by (rule mult_right_mono)
  from f64_mono [OF d e] show ?thesis unfolding float_rank_def by (rule floor_mono)
qed

lemma percentile_rank_eq:
  assumes "0 \<le> p" "p \<le> 100" "0 \<le> n" "n < 2 ^ 53"
  shows "percentile_rank n p = Inr (float_rank n p)"
proof -
  have p53: "p < 2 ^ 53" using assms(2) by simp
  have fp: "f64_of_int p = of_int p" unfolding f64_of_int_def by (rule f64_of_int_exact [OF assms(1) p53])
  have fn: "f64_of_int n = of_int n" unfolding f64_of_int_def by (rule f64_of_int_exact [OF assms(3,4)])
  from float_rank_bounds [OF assms] have r0: "0 \<le> float_rank n p" and rn: "float_rank n p \<le> n" by simp_all
  have r63: "float_rank n p < 2 ^ 63" using rn assms(4) by simp
  have nn: "0 \<le> f64 (f64 (of_int p / 100) * of_int n)"
    using r0 unfolding float_rank_def by (simp add: le_floor_iff)
  show ?thesis
    unfolding percentile_rank_def f64_mul_def f64_div_def fp fn f64_to_int_def
    using nn r0 r63 by (simp add: float_rank_def Let_def)
qed

lemma percentile_eq:
  assumes "xs \<noteq> []" "length xs < 2 ^ 53" "0 \<le> p" "p \<le> 100"
  shows "percentile xs p = Inr (xs ! nat (min (float_rank (int (length xs)) p) (int (length xs) - 1)))"
proof -
  have n: "0 \<le> int (length xs)" "int (length xs) < 2 ^ 53" using assms(2) by simp_all
  from float_rank_bounds [OF assms(3,4) n] have r0: "0 \<le> float_rank (int (length xs)) p" by simp
  have pos: "0 < length xs" using assms(1) by simp
  show ?thesis
    using r0 pos
    by (simp add: percentile_def Let_def percentile_rank_eq [OF assms(3,4) n] min_def)
qed

section \<open>Properties of the Collector\<close>

lemma apply_op_consistent:
  "counters_consistent c \<Longrightarrow> counters_consistent (apply_op c e)"
  by (cases e)
     (simp_all add: counters_consistent_def RecordRequest_def RecordRejection_def
        RecordMemory_def Stop_def Reset_def Let_def)

lemma foldl_apply_op_consistent:
  "counters_consistent c \<Longrightarrow> counters_consistent (foldl apply_op c ops)"
  by (induction ops arbitrary: c) (simp_all add: apply_op_consistent)

lemma NewCollector_consistent: "counters_consistent (NewCollector t0)"
  by (simp add: counters_consistent_def NewCollector_def)

lemma run_ops_consistent: "counters_consistent (run_ops t0 ops)"
  unfolding run_ops_def by (rule foldl_apply_op_consistent [OF NewCollector_consistent])

lemma apply_op_latencies:
  "length (latencies (apply_op c e)) \<le> Suc (length (latencies c))"
  by (cases e)
     (simp_all add: RecordRequest_def RecordRejection_def RecordMemory_def Stop_def
        Reset_def Let_def)

lemma foldl_apply_op_latencies:
  "length (latencies (foldl apply_op c ops)) \<le> length (latencies c) + length ops"
proof (induction ops arbitrary: c)
  case Nil
  show ?case by simp
next
  case (Cons e ops)
  have "length (latencies (foldl apply_op (apply_op c e) ops))
          \<le> length (latencies (apply_op c e)) + length ops" by (rule Cons.IH)
  also have "\<dots> \<le> Suc (length (latencies c)) + length ops"
    using apply_op_latencies [of c e] by simp
  finally show ?case by simp
qed

lemma run_ops_latencies: "length (latencies (run_ops t0 ops)) \<le> length ops"
  using foldl_apply_op_latencies [of "NewCollector t0" ops]
  by (simp add: run_ops_def NewCollector_def)

lemma latencyStats_Nil: "latencyStats [] st = Inr st"
  by (simp add: latencyStats_def)

lemma latencyStats_eq:
  assumes "ls \<noteq> []" "length ls < 2 ^ 53"
  shows "latencyStats ls st =
           Inr (st\<lparr> MinLatency := toMs (sort ls ! 0),
                     MaxLatency := toMs (sort ls ! (length ls - 1)),
                     MeanLatency := toMs (wrap64 (sum_list (sort ls)) sdiv int (length ls)),
                     MedianLatency :=
                       toMs (sort ls ! nat (min (float_rank (int (length ls)) 50) (int (length ls) - 1))),
                     P95Latency :=
                       toMs (sort ls ! nat (min (float_rank (int (length ls)) 95) (int (length ls) - 1))),
                     P99Latency :=
                       toMs (sort ls ! nat (min (float_rank (int (length ls)) 99) (int (length ls) - 1))) \<rparr>)"
proof -
  have ne: "sort ls \<noteq> []" using assms(1) by (metis length_0_conv length_sort)
  have len: "length (sort ls) < 2 ^ 53" using assms(2) by simp
  have p50: "percentile (sort ls) 50 =
      Inr (sort ls ! nat (min (float_rank (int (length ls)) 50) (int (length ls) - 1)))"
    using percentile_eq [OF ne len, of 50] by simp
  have p95: "percentile (sort ls) 95 =
      Inr (sort ls ! nat (min (float_rank (int (length ls)) 95) (int (length ls) - 1)))"
    using percentile_eq [OF ne len, of 95] by simp
  have p99: "percentile (sort ls) 99 =
      Inr (sort ls ! nat (min (float_rank (int (length ls)) 99) (int (length ls) - 1)))"
    using percentile_eq [OF ne len, of 99] by simp
  show ?thesis
    using assms(1) by (simp add: latencyStats_def Let_def p50 p95 p99)
qed

lemma latencyStats_keeps:
  assumes "length ls < 2 ^ 53"
  shows "\<exists>s. latencyStats ls st = Inr s
           \<and> TotalRequests s = TotalRequests st \<and> SuccessRequests s = SuccessRequests st
           \<and> ErrorRequests s = ErrorRequests st \<and> RejectedRequests s = RejectedRequests st
           \<and> Duration s = Duration st \<and> RequestsPerSec s = RequestsPerSec st"
proof (cases "ls = []")
  case True
  then show ?thesis by (simp add: latencyStats_Nil)
next
  case False
  show ?thesis by (simp add: latencyStats_eq [OF False assms])
qed

lemma counterStats_counts:
  "TotalRequests (counterStats c now) = totalRequests c
   \<and> SuccessRequests (counterStats c now) = successRequests c
   \<and> ErrorRequests (counterStats c now) = errorRequests c
   \<and> RejectedRequests (counterStats c now) = rejectedRequests c"
  by (simp add: counterStats_def Let_def)

lemma GetStats_counts:
  assumes "length (latencies c) < 2 ^ 53"
  shows "\<exists>s. GetStats c now = Inr s
           \<and> TotalRequests s = totalRequests c \<and> SuccessRequests s = successRequests c
           \<and> ErrorRequests s = errorRequests c \<and> RejectedRequests s = rejectedRequests c"
  using latencyStats_keeps [OF assms, of "counterStats c now"] counterStats_counts [of c now]
  unfolding GetStats_def by auto

text \<open>
  C10. In every state a collector reaches from its constructor through recordRequest,
  recordRejection, recordMemory, stop and reset, the total counter is the sum of the
  success, error and rejected counters (in the 64-bit arithmetic of the counters), and
  the snapshot taken there returns with the same equality between its four fields. The
  bound on the history keeps the sample count within the integers float64 holds exactly.
\<close>

theorem collector_counters_consistent:
  assumes "length ops < 2 ^ 53"
  shows "counters_consistent (run_ops t0 ops)
         \<and> (\<exists>s. GetStats (run_ops t0 ops) now = Inr s
                \<and> TotalRequests s = SuccessRequests s + ErrorRequests s + RejectedRequests s)"
proof -
  have inv: "counters_consistent (run_ops t0 ops)" by (rule run_ops_consistent)
  have "length (latencies (run_ops t0 ops)) < 2 ^ 53"
    using run_ops_latencies [of t0 ops] assms by simp
  from GetStats_counts [OF this, of now] obtain s where
    s: "GetStats (run_ops t0 ops) now = Inr s"
       "TotalRequests s = totalRequests (run_ops t0 ops)"
       "SuccessRequests s = successRequests (run_ops t0 ops)"
       "ErrorRequests s = errorRequests (run_ops t0 ops)"
       "RejectedRequests s = rejectedRequests (run_ops t0 ops)"
    by blast
  have "TotalRequests s = SuccessRequests s + ErrorRequests s + RejectedRequests s"
    using inv s by (simp add: counters_consistent_def)
  with inv s(1) show ?thesis by blast
qed

theorem collector_counters_consistent_witness:
  "length [OpRecordRequest 20000000 True, OpRecordRejection, OpRecordRequest 30000000 False,
           OpRecordMemory 3 4096, OpStop 5000000000] < 2 ^ 53
   \<and> counters_consistent
       (run_ops 1000000000
          [OpRecordRequest 20000000 True, OpRecordRejection, OpRecordRequest 30000000 False,
           OpRecordMemory 3 4096, OpStop 5000000000])
   \<and> totalRequests
       (run_ops 1000000000
          [OpRecordRequest 20000000 True, OpRecordRejection, OpRecordRequest 30000000 False,
           OpRecordMemory 3 4096, OpStop 5000000000]) = 3
   \<and> (\<exists>s. GetStats
              (run_ops 1000000000
                 [OpRecordRequest 20000000 True, OpRecordRejection,
                  OpRecordRequest 30000000 False, OpRecordMemory 3 4096, OpStop 5000000000])
              6000000000 = Inr s
          \<and> TotalRequests s = SuccessRequests s + ErrorRequests s + RejectedRequests s)"
  using collector_counters_consistent
          [of "[OpRecordRequest 20000000 True, OpRecordRejection, OpRecordRequest 30000000 False,
                OpRecordMemory 3 4096, OpStop 5000000000]" 1000000000 6000000000]
  by (simp add: run_ops_def NewCollector_def RecordRequest_def RecordRejection_def
        RecordMemory_def Stop_def Let_def)

end
